theory Spec2Isabelle
  imports Complex_Main "HOL-Library.Log_Nat"
begin

unbundle bit_operations_syntax

section \<open>The Channel of channel.h\<close>

text \<open>
  channel.h holds three revisions of the class template \<open>Channel<T>\<close>:
  \<^item> the revision whose indices are \<open>volatile int\<close> and whose constructor rounds the
    storage up (its operations are \<open>Send_volatile\<close> and \<open>Receive_volatile\<close> below);
  \<^item> the revision whose indices are \<open>std::atomic<int>\<close> (\<open>Send\<close> and \<open>Receive\<close>);
    its constructor and its fields are those of the first revision, word for word;
  \<^item> the revision with one dummy slot, whose capacity must be one less than a power
    of two (\<open>Channel_dummy\<close>, \<open>Send_dummy\<close>, \<open>Receive_dummy\<close>).

  The C++ \<open>int\<close> is modelled by \<open>int\<close>. Every place where the C++ program has no
  defined result is a value of \<open>failure\<close>; the lemmas below show that a channel
  constructed by the revisions that round never reaches one and that every
  intermediate value of its calls stays inside 32 bits.
  The calls are taken one after the other (a sequential interleaving of the producer
  and the consumer), so the memory barriers and orderings of the loads and stores
  have no counterpart here.
\<close>

subsection \<open>Data\<close>

datatype failure =
  AssertionFailed        \<comment> \<open>\<open>assert\<close> aborts\<close>
| UndefinedConversion    \<comment> \<open>a floating-point value outside \<open>int\<close> converted to \<open>int\<close>\<close>
| IntOverflow            \<comment> \<open>a signed result (\<open>1 << power\<close>, \<open>n + 1\<close>) outside the 32-bit \<open>int\<close>\<close>
| BadArrayLength         \<comment> \<open>\<open>new T[n]\<close> with negative \<open>n\<close>\<close>
| OutOfBounds            \<comment> \<open>\<open>buf_[i]\<close> outside the allocated storage\<close>
| Diverges               \<comment> \<open>a loop that never ends\<close>

text \<open>
  The private members \<open>cap_\<close>, \<open>size_\<close>, \<open>size_mask_\<close>, \<open>buf_\<close>, \<open>r_\<close> and \<open>w_\<close>
  (a name cannot end with an underscore here, so each is followed by \<open>m\<close>).
\<close>

record 'a channel =
  cap_m :: int
  size_m :: int
  size_mask_m :: int
  buf_m :: "'a list"
  r_m :: int
  w_m :: int

subsection \<open>Construction (revisions with rounding)\<close>

text \<open>
  \<open>new T[size_]\<close> leaves the slots of a scalar type uninitialised: their first content
  is the parameter \<open>fresh\<close>; the allocation itself is taken to succeed. \<open>log(0)\<close> is
  minus infinity, which \<open>floor\<close> and \<open>+ 1\<close> keep, and its conversion to \<open>int\<close> is
  undefined. The quotient of the two logarithms is taken in the reals; \<open>Channel_eq\<close>
  below computes it with \<open>bitlen\<close>, the number of binary digits.
\<close>

definition Channel :: "int \<Rightarrow> (nat \<Rightarrow> 'a) \<Rightarrow> failure + 'a channel" where
  "Channel capacity fresh =
     (if \<not> capacity \<ge> 0 then Inl AssertionFailed
      else if capacity = 0 then Inl UndefinedConversion
      else
        let power = \<lfloor>ln (real_of_int capacity) / ln 2\<rfloor> + 1 in
        if power \<ge> 31 then Inl IntOverflow
        else
          let size = push_bit (nat power) (1 :: int);
              size_mask = size - 1
          in Inr \<lparr>cap_m = capacity, size_m = size, size_mask_m = size_mask,
                  buf_m = map fresh [0 ..< nat size], r_m = 0, w_m = 0\<rparr>)"

definition capacity :: "'a channel \<Rightarrow> int" where
  "capacity ch = cap_m ch"

subsection \<open>Send and Receive (revision with atomics)\<close>

definition in_bounds :: "'a channel \<Rightarrow> int \<Rightarrow> bool" where
  "in_bounds ch i \<longleftrightarrow> 0 \<le> i \<and> nat i < length (buf_m ch)"

definition Send :: "'a channel \<Rightarrow> 'a \<Rightarrow> failure + (bool \<times> 'a channel)" where
  "Send ch item =
     (let w = w_m ch;
          r = r_m ch;
          nitems = w - r
      in if nitems = cap_m ch \<or> nitems + size_m ch = cap_m ch then Inr (False, ch)
         else if \<not> in_bounds ch w then Inl OutOfBounds
         else Inr (True, ch\<lparr>buf_m := (buf_m ch)[nat w := item],
                              w_m := (w + 1) AND size_mask_m ch\<rparr>))"

text \<open>
  \<open>Receive\<close> takes the content of \<open>*item\<close> before the call and returns its content
  after the call, next to the boolean.
\<close>

definition Receive :: "'a channel \<Rightarrow> 'a \<Rightarrow> failure + (bool \<times> 'a \<times> 'a channel)" where
  "Receive ch item =
     (let r = r_m ch;
          w = w_m ch
      in if r = w then Inr (False, item, ch)
         else if \<not> in_bounds ch r then Inl OutOfBounds
         else Inr (True, buf_m ch ! nat r, ch\<lparr>r_m := (r + 1) AND size_mask_m ch\<rparr>))"

subsection \<open>Send and Receive (revision with volatile indices)\<close>

text \<open>
  \<open>__sync_bool_compare_and_swap(&x, old, new)\<close> on a location holding \<open>cur\<close>: the
  boolean it returns and the content of the location afterwards. The loop
  \<open>while (!__sync_bool_compare_and_swap(&x, old, new)) ;\<close> retries until the swap
  succeeds; \<open>None\<close> is the loop that never ends.
\<close>

definition compare_and_swap :: "int \<Rightarrow> int \<Rightarrow> int \<Rightarrow> bool \<times> int" where
  "compare_and_swap cur old new = (if cur = old then (True, new) else (False, cur))"

partial_function (option) cas_loop :: "int \<Rightarrow> int \<Rightarrow> int \<Rightarrow> int option" where
  "cas_loop cur old new =
     (case compare_and_swap cur old new of
        (swapped, cur') \<Rightarrow> if swapped then Some cur' else cas_loop cur' old new)"

definition Send_volatile :: "'a channel \<Rightarrow> 'a \<Rightarrow> failure + (bool \<times> 'a channel)" where
  "Send_volatile ch t =
     (let r = r_m ch;
          w = w_m ch;
          next = (w + 1) AND size_mask_m ch
      in if (if w > r then w - r else w - r + size_m ch) = cap_m ch then Inr (False, ch)
         else if \<not> in_bounds ch w then Inl OutOfBounds
         else
           let ch1 = ch\<lparr>buf_m := (buf_m ch)[nat w := t]\<rparr> in
           case cas_loop (w_m ch1) w next of
             None \<Rightarrow> Inl Diverges
           | Some w' \<Rightarrow> Inr (True, ch1\<lparr>w_m := w'\<rparr>))"

definition Receive_volatile :: "'a channel \<Rightarrow> 'a \<Rightarrow> failure + (bool \<times> 'a \<times> 'a channel)" where
  "Receive_volatile ch item =
     (let r = r_m ch;
          w = w_m ch
      in if r = w then Inr (False, item, ch)
         else if \<not> in_bounds ch r then Inl OutOfBounds
         else
           let item' = buf_m ch ! nat r;
               next = (r + 1) AND size_mask_m ch
           in case cas_loop (r_m ch) r next of
                None \<Rightarrow> Inl Diverges
              | Some r' \<Rightarrow> Inr (True, item', ch\<lparr>r_m := r'\<rparr>))"

subsection \<open>The revision with a dummy slot\<close>

text \<open>
  The members \<open>n_\<close>, \<open>size_mask_\<close>, \<open>buf_\<close>, \<open>r_\<close> and \<open>w_\<close> of this revision are
  followed by \<open>d\<close>. Its member initialisers, \<open>new T[n + 1]\<close> among them, run before
  the body of the constructor, where the assertion is.
\<close>

record 'a channel_dummy =
  n_d :: int
  size_mask_d :: int
  buf_d :: "'a list"
  r_d :: int
  w_d :: int

definition Channel_dummy :: "int \<Rightarrow> (nat \<Rightarrow> 'a) \<Rightarrow> failure + 'a channel_dummy" where
  "Channel_dummy n fresh =
     (if n + 1 \<ge> 2 ^ 31 then Inl IntOverflow
      else if n + 1 < 0 then Inl BadArrayLength
      else if \<not> (n AND (n + 1)) = 0 then Inl AssertionFailed
      else Inr \<lparr>n_d = n + 1, size_mask_d = n, buf_d = map fresh [0 ..< nat (n + 1)],
                r_d = 0, w_d = 0\<rparr>)"

definition capacity_dummy :: "'a channel_dummy \<Rightarrow> int" where
  "capacity_dummy ch = n_d ch - 1"

definition Send_dummy :: "'a channel_dummy \<Rightarrow> 'a \<Rightarrow> failure + (bool \<times> 'a channel_dummy)" where
  "Send_dummy ch t =
     (let w = w_d ch;
          next = (w + 1) AND size_mask_d ch;
          r = r_d ch
      in if next = r then Inr (False, ch)
         else if \<not> (0 \<le> w \<and> nat w < length (buf_d ch)) then Inl OutOfBounds
         else
           let ch1 = ch\<lparr>buf_d := (buf_d ch)[nat w := t]\<rparr> in
           case cas_loop (w_d ch1) w next of
             None \<Rightarrow> Inl Diverges
           | Some w' \<Rightarrow> Inr (True, ch1\<lparr>w_d := w'\<rparr>))"

definition Receive_dummy ::
  "'a channel_dummy \<Rightarrow> 'a \<Rightarrow> failure + (bool \<times> 'a \<times> 'a channel_dummy)" where
  "Receive_dummy ch item =
     (let r = r_d ch;
          w = w_d ch
      in if r = w then Inr (False, item, ch)
         else if \<not> (0 \<le> r \<and> nat r < length (buf_d ch)) then Inl OutOfBounds
         else
           let item' = buf_d ch ! nat r;
               next = (r + 1) AND size_mask_d ch
           in case cas_loop (r_d ch) r next of
                None \<Rightarrow> Inl Diverges
              | Some r' \<Rightarrow> Inr (True, item', ch\<lparr>r_d := r'\<rparr>))"

subsection \<open>Sequences of calls\<close>

text \<open>
  A call of the producer or of the consumer, and what it returned. \<open>CallReceive d\<close>
  is \<open>Receive(&item)\<close> with \<open>d\<close> the content of \<open>item\<close> before the call;
  \<open>Received b v\<close> is the boolean returned and the content of \<open>item\<close> after it.
  \<open>make_calls\<close> makes the calls of a list one after the other on the channel, each on the
  state the one before left, and stops at the first failure.
\<close>

datatype 'a call = CallSend 'a | CallReceive 'a

datatype 'a outcome = Sent bool | Received bool 'a

fun make_call ::
  "('s \<Rightarrow> 'a \<Rightarrow> failure + (bool \<times> 's)) \<Rightarrow> ('s \<Rightarrow> 'a \<Rightarrow> failure + (bool \<times> 'a \<times> 's)) \<Rightarrow>
   's \<Rightarrow> 'a call \<Rightarrow> failure + ('a outcome \<times> 's)" where
  "make_call send recv ch (CallSend x) =
     (case send ch x of Inl e \<Rightarrow> Inl e | Inr (b, ch') \<Rightarrow> Inr (Sent b, ch'))"
| "make_call send recv ch (CallReceive d) =
     (case recv ch d of Inl e \<Rightarrow> Inl e | Inr (b, v, ch') \<Rightarrow> Inr (Received b v, ch'))"

fun make_calls ::
  "('s \<Rightarrow> 'a \<Rightarrow> failure + (bool \<times> 's)) \<Rightarrow> ('s \<Rightarrow> 'a \<Rightarrow> failure + (bool \<times> 'a \<times> 's)) \<Rightarrow>
   's \<Rightarrow> 'a call list \<Rightarrow> failure + ('a outcome list \<times> 's)" where
  "make_calls send recv ch [] = Inr ([], ch)"
| "make_calls send recv ch (c # cs) =
     (case make_call send recv ch c of
        Inl e \<Rightarrow> Inl e
      | Inr (out, ch') \<Rightarrow>
          (case make_calls send recv ch' cs of
             Inl e \<Rightarrow> Inl e
           | Inr (outs, ch'') \<Rightarrow> Inr (out # outs, ch'')))"

definition run :: "'a channel \<Rightarrow> 'a call list \<Rightarrow> failure + ('a outcome list \<times> 'a channel)" where
  "run = make_calls Send Receive"

definition run_volatile ::
  "'a channel \<Rightarrow> 'a call list \<Rightarrow> failure + ('a outcome list \<times> 'a channel)" where
  "run_volatile = make_calls Send_volatile Receive_volatile"

definition run_dummy ::
  "'a channel_dummy \<Rightarrow> 'a call list \<Rightarrow> failure + ('a outcome list \<times> 'a channel_dummy)" where
  "run_dummy = make_calls Send_dummy Receive_dummy"

text \<open>
  The values passed to the Sends that returned true, and the values delivered by the
  Receives that returned true, each in the order of the calls.
\<close>

fun accepted :: "'a call list \<Rightarrow> 'a outcome list \<Rightarrow> 'a list" where
  "accepted (CallSend x # cs) (Sent True # outs) = x # accepted cs outs"
| "accepted (c # cs) (out # outs) = accepted cs outs"
| "accepted _ _ = []"

fun delivered :: "'a outcome list \<Rightarrow> 'a list" where
  "delivered (Received True v # outs) = v # delivered outs"
| "delivered (out # outs) = delivered outs"
| "delivered [] = []"

subsection \<open>Derived state\<close>

text \<open>
  The number of items queued, \<open>(writeIndex - readIndex) mod storageLength\<close>, and the
  items themselves, oldest first: the slots from the read index up to the write index,
  around the end of the storage.
\<close>

definition occupancy :: "'a channel \<Rightarrow> int" where
  "occupancy ch = (w_m ch - r_m ch) mod size_m ch"

definition queued :: "'a channel \<Rightarrow> 'a list" where
  "queued ch =
     map (\<lambda>i. buf_m ch ! nat ((r_m ch + int i) mod size_m ch)) [0 ..< nat (occupancy ch)]"

text \<open>What construction establishes and every call keeps.\<close>

definition well_formed :: "'a channel \<Rightarrow> bool" where
  "well_formed ch \<longleftrightarrow>
     (\<exists>k \<le> 30. size_m ch = 2 ^ k) \<and>
     size_mask_m ch = size_m ch - 1 \<and>
     int (length (buf_m ch)) = size_m ch \<and>
     0 < cap_m ch \<and> cap_m ch < size_m ch \<and>
     0 \<le> r_m ch \<and> r_m ch < size_m ch \<and>
     0 \<le> w_m ch \<and> w_m ch < size_m ch \<and>
     occupancy ch \<le> cap_m ch"

text \<open>What construction with a capacity of at least 0 establishes in the revision with
  a dummy slot, and every call keeps.\<close>

definition well_formed_dummy :: "'a channel_dummy \<Rightarrow> bool" where
  "well_formed_dummy ch \<longleftrightarrow>
     (\<exists>k \<le> 30. n_d ch = 2 ^ k) \<and>
     size_mask_d ch = n_d ch - 1 \<and>
     int (length (buf_d ch)) = n_d ch \<and>
     0 \<le> r_d ch \<and> r_d ch < n_d ch \<and>
     0 \<le> w_d ch \<and> w_d ch < n_d ch"

subsection \<open>The sizing rule in words\<close>

text \<open>
  \<open>smallest_power_of_two_at_least c p\<close> follows the wording of the specification:
  \<open>p\<close> is the smallest power of two at least as large as \<open>c\<close>.
  \<open>smallest_power_of_two_above c p\<close> is the same with "larger than" for "at least as
  large as".
\<close>

definition smallest_power_of_two_at_least :: "int \<Rightarrow> int \<Rightarrow> bool" where
  "smallest_power_of_two_at_least c p \<longleftrightarrow>
     (\<exists>k :: nat. p = 2 ^ k) \<and> c \<le> p \<and>
     (\<forall>q. (\<exists>j :: nat. q = 2 ^ j) \<and> c \<le> q \<longrightarrow> p \<le> q)"

definition smallest_power_of_two_above :: "int \<Rightarrow> int \<Rightarrow> bool" where
  "smallest_power_of_two_above c p \<longleftrightarrow>
     (\<exists>k :: nat. p = 2 ^ k) \<and> c < p \<and>
     (\<forall>q. (\<exists>j :: nat. q = 2 ^ j) \<and> c < q \<longrightarrow> p \<le> q)"

section \<open>Supporting lemmas\<close>

subsection \<open>The compare-and-swap loop, the mask, the constructor\<close>

text \<open>With no other writer between the read of an index and the swap, the loop ends
  at its first iteration.\<close>

lemma cas_loop_first_try: "cas_loop w w next = Some next"
  by (subst cas_loop.simps) (simp add: compare_and_swap_def)

lemma and_mask_mod: "(x :: int) AND (2 ^ k - 1) = x mod 2 ^ k"
  by (simp flip: mask_eq_exp_minus_1 take_bit_eq_mask add: take_bit_eq_mod)

lemma power_eq_bitlen: "0 < c \<Longrightarrow> \<lfloor>ln (real_of_int c) / ln 2\<rfloor> + 1 = bitlen c"
  by (simp add: bitlen_alt_def log_def)

lemma Channel_eq [code]:
  "Channel c fresh =
     (if c < 0 then Inl AssertionFailed
      else if c = 0 then Inl UndefinedConversion
      else if 2 ^ 30 \<le> c then Inl IntOverflow
      else Inr \<lparr>cap_m = c, size_m = 2 ^ nat (bitlen c), size_mask_m = 2 ^ nat (bitlen c) - 1,
                buf_m = map fresh [0 ..< 2 ^ nat (bitlen c)], r_m = 0, w_m = 0\<rparr>)"
proof -
  have "bitlen c \<ge> 31 \<longleftrightarrow> 2 ^ 30 \<le> c" if "0 < c"
    using bitlen_le_iff_power[of c 30] by auto
  then show ?thesis
    by (auto simp: Channel_def Let_def power_eq_bitlen push_bit_eq_mult nat_power_eq)
qed

subsection \<open>Distances around the ring\<close>

lemma ring_distance:
  fixes r w n :: int
  assumes "0 \<le> r" "r < n" "0 \<le> w" "w < n"
  shows "(w - r) mod n = (if r \<le> w then w - r else w - r + n)"
proof (cases "r \<le> w")
  case True
  with assms show ?thesis by simp
next
  case False
  have "(w - r + n) mod n = w - r + n"
    by (rule mod_pos_pos_trivial) (use False assms in linarith)+
  then show ?thesis using False by simp
qed

lemma well_formed_Channel:
  assumes "Channel c fresh = Inr ch"
  shows "well_formed ch" and "cap_m ch = c" and "occupancy ch = 0"
proof -
  from assms have c: "0 < c" "c < 2 ^ 30"
    and ch: "ch = \<lparr>cap_m = c, size_m = 2 ^ nat (bitlen c), size_mask_m = 2 ^ nat (bitlen c) - 1,
                buf_m = map fresh [0 ..< 2 ^ nat (bitlen c)], r_m = 0, w_m = 0\<rparr>"
    by (auto simp: Channel_eq split: if_splits)
  have k: "nat (bitlen c) \<le> 30" using c bitlen_le_iff_power[of c 30] by simp
  have lt: "c < 2 ^ nat (bitlen c)" using bitlen_bounds[of c] c by simp
  show "cap_m ch = c" by (simp add: ch)
  show "occupancy ch = 0" by (simp add: ch occupancy_def)
  show "well_formed ch"
    unfolding well_formed_def using c k lt by (auto simp: ch occupancy_def)
qed


subsection \<open>One call on a well-formed channel\<close>

lemma well_formedD:
  assumes "well_formed ch"
  shows "0 < size_m ch" and "size_m ch \<le> 2 ^ 30"
    and "size_mask_m ch = size_m ch - 1"
    and "int (length (buf_m ch)) = size_m ch"
    and "0 < cap_m ch" and "cap_m ch < size_m ch"
    and "0 \<le> r_m ch" and "r_m ch < size_m ch"
    and "0 \<le> w_m ch" and "w_m ch < size_m ch"
    and "occupancy ch \<le> cap_m ch" and "0 \<le> occupancy ch"
    and "x AND size_mask_m ch = x mod size_m ch"
proof -
  from assms obtain k where k: "k \<le> 30" "size_m ch = 2 ^ k"
    by (auto simp: well_formed_def)
  show "0 < size_m ch" by (simp add: k)
  then show "0 \<le> occupancy ch" by (simp add: occupancy_def)
  have "(2 :: int) ^ k \<le> 2 ^ 30" using k(1) by (intro power_increasing) auto
  then show "size_m ch \<le> 2 ^ 30" by (simp add: k)
  show "size_mask_m ch = size_m ch - 1" "int (length (buf_m ch)) = size_m ch"
    "0 < cap_m ch" "cap_m ch < size_m ch" "0 \<le> r_m ch" "r_m ch < size_m ch"
    "0 \<le> w_m ch" "w_m ch < size_m ch" "occupancy ch \<le> cap_m ch"
    using assms by (auto simp: well_formed_def)
  then show "x AND size_mask_m ch = x mod size_m ch"
    by (simp add: k and_mask_mod)
qed

lemma occupancy_eq:
  assumes "well_formed ch"
  shows "occupancy ch =
    (if r_m ch \<le> w_m ch then w_m ch - r_m ch else w_m ch - r_m ch + size_m ch)"
  unfolding occupancy_def using well_formedD[OF assms] by (intro ring_distance) auto

lemma Send_eq:
  assumes "well_formed ch"
  shows "Send ch x =
    (if occupancy ch < cap_m ch
     then Inr (True, ch\<lparr>buf_m := (buf_m ch)[nat (w_m ch) := x],
                         w_m := (w_m ch + 1) mod size_m ch\<rparr>)
     else Inr (False, ch))"
  using well_formedD(1-12)[OF assms] well_formedD(13)[OF assms, of "w_m ch + 1"] occupancy_eq[OF assms]
  by (auto simp: Send_def Let_def in_bounds_def)

lemma Receive_eq:
  assumes "well_formed ch"
  shows "Receive ch d =
    (if 0 < occupancy ch
     then Inr (True, buf_m ch ! nat (r_m ch), ch\<lparr>r_m := (r_m ch + 1) mod size_m ch\<rparr>)
     else Inr (False, d, ch))"
  using well_formedD(1-12)[OF assms] well_formedD(13)[OF assms, of "r_m ch + 1"] occupancy_eq[OF assms]
  by (auto simp: Receive_def Let_def in_bounds_def)


lemma occupancy_after_Send:
  assumes wf: "well_formed ch" and room: "occupancy ch < cap_m ch"
  shows "((w_m ch + 1) mod size_m ch - r_m ch) mod size_m ch = occupancy ch + 1"
proof -
  let ?n = "size_m ch"
  note D = well_formedD(1-12)[OF wf]
  have "((w_m ch + 1) mod ?n - r_m ch) mod ?n = (w_m ch + 1 - r_m ch) mod ?n"
    by (simp add: mod_diff_left_eq)
  also have "\<dots> = ((w_m ch - r_m ch) + 1) mod ?n"
    by (simp add: algebra_simps)
  also have "\<dots> = ((w_m ch - r_m ch) mod ?n + 1) mod ?n"
    by (simp only: mod_add_left_eq)
  also have "\<dots> = occupancy ch + 1"
    unfolding occupancy_def[symmetric] using D room by (intro mod_pos_pos_trivial) auto
  finally show ?thesis .
qed

lemma occupancy_after_Receive:
  assumes wf: "well_formed ch" and some: "0 < occupancy ch"
  shows "(w_m ch - (r_m ch + 1) mod size_m ch) mod size_m ch = occupancy ch - 1"
proof -
  let ?n = "size_m ch"
  note D = well_formedD(1-12)[OF wf]
  have "(w_m ch - (r_m ch + 1) mod ?n) mod ?n = (w_m ch - (r_m ch + 1)) mod ?n"
    by (simp add: mod_diff_right_eq)
  also have "\<dots> = ((w_m ch - r_m ch) - 1) mod ?n"
    by (simp add: algebra_simps)
  also have "\<dots> = ((w_m ch - r_m ch) mod ?n - 1) mod ?n"
    by (simp only: mod_diff_left_eq)
  also have "\<dots> = occupancy ch - 1"
    unfolding occupancy_def[symmetric] using D some by (intro mod_pos_pos_trivial) auto
  finally show ?thesis .
qed

lemma slot_of_queued:
  assumes wf: "well_formed ch" and i: "0 \<le> i" "i < size_m ch"
  shows "0 \<le> (r_m ch + i) mod size_m ch" and "(r_m ch + i) mod size_m ch < size_m ch"
    and "((r_m ch + i) mod size_m ch - r_m ch) mod size_m ch = i"
proof -
  let ?n = "size_m ch"
  note D = well_formedD(1-12)[OF wf]
  show "0 \<le> (r_m ch + i) mod ?n" "(r_m ch + i) mod ?n < ?n" using D by simp_all
  have "((r_m ch + i) mod ?n - r_m ch) mod ?n = (r_m ch + i - r_m ch) mod ?n"
    by (simp only: mod_diff_left_eq)
  also have "\<dots> = i" using i by simp
  finally show "((r_m ch + i) mod ?n - r_m ch) mod ?n = i" .
qed

lemma write_slot:
  assumes wf: "well_formed ch"
  shows "(r_m ch + occupancy ch) mod size_m ch = w_m ch"
proof -
  note D = well_formedD(1-12)[OF wf]
  have "(r_m ch + occupancy ch) mod size_m ch = (r_m ch + (w_m ch - r_m ch)) mod size_m ch"
    unfolding occupancy_def by (simp only: mod_add_right_eq)
  also have "\<dots> = w_m ch" using D by simp
  finally show ?thesis .
qed

lemma Send_accepts:
  fixes ch :: "'a channel" and x :: 'a
  assumes wf: "well_formed ch" and room: "occupancy ch < cap_m ch"
  defines "ch' \<equiv> ch\<lparr>buf_m := (buf_m ch)[nat (w_m ch) := x],
                      w_m := (w_m ch + 1) mod size_m ch\<rparr>"
  shows "well_formed ch'" and "occupancy ch' = occupancy ch + 1"
    and "queued ch' = queued ch @ [x]"
proof -
  let ?n = "size_m ch"
  note D = well_formedD(1-12)[OF wf]
  show occ: "occupancy ch' = occupancy ch + 1"
    using occupancy_after_Send[OF wf room] by (simp add: ch'_def occupancy_def)
  have "0 \<le> (w_m ch + 1) mod ?n" "(w_m ch + 1) mod ?n < ?n" using D by simp_all
  then show "well_formed ch'"
    using wf D room occ unfolding well_formed_def
    by (auto simp: ch'_def)
  have other: "(buf_m ch)[nat (w_m ch) := x] ! nat ((r_m ch + int i) mod ?n) =
               buf_m ch ! nat ((r_m ch + int i) mod ?n)" if "i < nat (occupancy ch)" for i
  proof -
    have i: "0 \<le> int i" "int i < ?n" "int i \<noteq> occupancy ch" using that D room by auto
    have "(r_m ch + int i) mod ?n \<noteq> w_m ch"
      using slot_of_queued(3)[OF wf i(1,2)] i(3) by (auto simp: occupancy_def)
    moreover have "0 \<le> (r_m ch + int i) mod ?n" using slot_of_queued(1)[OF wf i(1,2)] .
    ultimately have "nat ((r_m ch + int i) mod ?n) \<noteq> nat (w_m ch)"
      using D(9) by (simp only: eq_nat_nat_iff) simp
    then show ?thesis by simp
  qed
  have new: "(buf_m ch)[nat (w_m ch) := x] ! nat ((r_m ch + occupancy ch) mod ?n) = x"
    using write_slot[OF wf] D by (simp add: nat_less_iff)
  have "nat (occupancy ch + 1) = Suc (nat (occupancy ch))" using D by simp
  then show "queued ch' = queued ch @ [x]"
    using other new D unfolding queued_def occ by (simp add: ch'_def)
qed

lemma Receive_delivers:
  assumes wf: "well_formed ch" and some: "0 < occupancy ch"
  defines "ch' \<equiv> ch\<lparr>r_m := (r_m ch + 1) mod size_m ch\<rparr>"
  shows "well_formed ch'" and "occupancy ch' = occupancy ch - 1"
    and "queued ch = buf_m ch ! nat (r_m ch) # queued ch'"
proof -
  let ?n = "size_m ch"
  note D = well_formedD(1-12)[OF wf]
  show occ: "occupancy ch' = occupancy ch - 1"
    using occupancy_after_Receive[OF wf some] by (simp add: ch'_def occupancy_def)
  have "0 \<le> (r_m ch + 1) mod ?n" "(r_m ch + 1) mod ?n < ?n" using D by simp_all
  then show "well_formed ch'"
    using wf D some occ unfolding well_formed_def
    by (auto simp: ch'_def)
  have shift: "((r_m ch + 1) mod ?n + int i) mod ?n = (r_m ch + int (Suc i)) mod ?n" for i
  proof -
    have "((r_m ch + 1) mod ?n + int i) mod ?n = (r_m ch + 1 + int i) mod ?n"
      by (simp only: mod_add_left_eq)
    then show ?thesis by (simp add: algebra_simps)
  qed
  have "nat (occupancy ch) = Suc (nat (occupancy ch - 1))" using some by simp
  then have "[0 ..< nat (occupancy ch)] = 0 # map Suc [0 ..< nat (occupancy ch - 1)]"
    by (simp only: map_Suc_upt upt_conv_Cons)
  then show "queued ch = buf_m ch ! nat (r_m ch) # queued ch'"
    using D unfolding queued_def occ by (simp add: ch'_def shift o_def)
qed


subsection \<open>Sequences of calls on a well-formed channel\<close>

lemma make_call_well_formed:
  assumes wf: "well_formed ch"
  shows "\<exists>out ch'. make_call Send Receive ch c = Inr (out, ch') \<and>
           well_formed ch' \<and> cap_m ch' = cap_m ch \<and> size_m ch' = size_m ch \<and>
           length (buf_m ch') = length (buf_m ch) \<and>
           queued ch @ accepted [c] [out] = delivered [out] @ queued ch'"
proof (cases c)
  case (CallSend x)
  show ?thesis
  proof (cases "occupancy ch < cap_m ch")
    case True
    from Send_accepts[OF wf True, of x] show ?thesis
      by (simp add: CallSend Send_eq[OF wf] True)
  next
    case False
    with wf show ?thesis by (simp add: CallSend Send_eq[OF wf])
  qed
next
  case (CallReceive d)
  show ?thesis
  proof (cases "0 < occupancy ch")
    case True
    from Receive_delivers[OF wf True] show ?thesis
      by (simp add: CallReceive Receive_eq[OF wf] True)
  next
    case False
    with wf show ?thesis by (simp add: CallReceive Receive_eq[OF wf])
  qed
qed

lemma accepted_Cons: "accepted (c # cs) (out # outs) = accepted [c] [out] @ accepted cs outs"
  by (cases "(c # cs, out # outs)" rule: accepted.cases) auto

lemma delivered_Cons: "delivered (out # outs) = delivered [out] @ delivered outs"
  by (cases "out # outs" rule: delivered.cases) auto

lemma run_well_formed:
  assumes "well_formed ch"
  shows "\<exists>outs ch'. run ch cs = Inr (outs, ch') \<and> length outs = length cs \<and>
           well_formed ch' \<and> cap_m ch' = cap_m ch \<and> size_m ch' = size_m ch \<and>
           length (buf_m ch') = length (buf_m ch) \<and>
           queued ch @ accepted cs outs = delivered outs @ queued ch'"
  using assms
proof (induction cs arbitrary: ch)
  case Nil
  then show ?case by (simp add: run_def)
next
  case (Cons c cs)
  from make_call_well_formed[OF Cons.prems, of c] obtain out ch1 where
    1: "make_call Send Receive ch c = Inr (out, ch1)" "well_formed ch1"
       "cap_m ch1 = cap_m ch" "size_m ch1 = size_m ch" "length (buf_m ch1) = length (buf_m ch)"
       "queued ch @ accepted [c] [out] = delivered [out] @ queued ch1"
    by blast
  from Cons.IH[OF 1(2)] obtain outs ch2 where
    2: "run ch1 cs = Inr (outs, ch2)" "length outs = length cs" "well_formed ch2"
       "cap_m ch2 = cap_m ch1" "size_m ch2 = size_m ch1" "length (buf_m ch2) = length (buf_m ch1)"
       "queued ch1 @ accepted cs outs = delivered outs @ queued ch2"
    by blast
  have "queued ch @ accepted (c # cs) (out # outs) =
        (queued ch @ accepted [c] [out]) @ accepted cs outs"
    by (subst accepted_Cons) simp
  also have "\<dots> = delivered [out] @ (queued ch1 @ accepted cs outs)"
    by (simp only: 1(6) append_assoc)
  also have "\<dots> = delivered (out # outs) @ queued ch2"
    by (subst delivered_Cons) (simp only: 2(7) append_assoc)
  finally have "queued ch @ accepted (c # cs) (out # outs) = delivered (out # outs) @ queued ch2" .
  with 1 2 show ?case
    by (simp add: run_def)
qed

lemma length_queued: "well_formed ch \<Longrightarrow> int (length (queued ch)) = occupancy ch"
  using well_formedD(12)[of ch] by (simp add: queued_def)

lemma intermediates_fit_32_bits:
  assumes "well_formed ch"
  shows "- (2 ^ 31) \<le> w_m ch - r_m ch" and "w_m ch - r_m ch + size_m ch < 2 ^ 31"
    and "w_m ch + 1 < 2 ^ 31" and "r_m ch + 1 < 2 ^ 31"
  using well_formedD(1-12)[OF assms] by simp_all

subsection \<open>The revision with volatile indices\<close>

lemma Send_volatile_eq_Send:
  assumes "0 < cap_m ch" and "cap_m ch \<le> size_m ch"
  shows "Send_volatile ch x = Send ch x"
  using assms by (auto simp: Send_volatile_def Send_def Let_def cas_loop_first_try)

lemma Receive_volatile_eq_Receive: "Receive_volatile ch d = Receive ch d"
  by (simp add: Receive_volatile_def Receive_def Let_def cas_loop_first_try)

lemma make_call_volatile:
  assumes "well_formed ch"
  shows "make_call Send_volatile Receive_volatile ch c = make_call Send Receive ch c"
  using well_formedD(5,6)[OF assms]
  by (cases c) (simp_all add: Send_volatile_eq_Send Receive_volatile_eq_Receive)

lemma run_volatile_eq_run:
  assumes "well_formed ch"
  shows "run_volatile ch cs = run ch cs"
  using assms
proof (induction cs arbitrary: ch)
  case Nil
  show ?case by (simp add: run_volatile_def run_def)
next
  case (Cons c cs)
  from make_call_well_formed[OF Cons.prems, of c] obtain out ch1 where
    1: "make_call Send Receive ch c = Inr (out, ch1)" "well_formed ch1"
    by blast
  from Cons.IH[OF 1(2)] have "make_calls Send_volatile Receive_volatile ch1 cs =
      make_calls Send Receive ch1 cs"
    by (simp add: run_volatile_def run_def)
  then show ?case
    by (simp add: run_volatile_def run_def make_call_volatile[OF Cons.prems] 1(1))
qed

subsection \<open>The sizing rule\<close>

lemma power_of_two_above:
  assumes "0 < c"
  shows "smallest_power_of_two_above c (2 ^ nat (bitlen c))"
  unfolding smallest_power_of_two_above_def
proof (intro conjI allI impI)
  show "\<exists>k :: nat. (2 :: int) ^ nat (bitlen c) = 2 ^ k" by blast
  show "c < 2 ^ nat (bitlen c)" using bitlen_bounds[OF assms] by simp
  fix q :: int
  assume "(\<exists>j :: nat. q = 2 ^ j) \<and> c < q"
  then obtain j :: nat where j: "q = 2 ^ j" "c < 2 ^ j" by blast
  from j(2) have "bitlen c \<le> int j" using bitlen_le_iff_power[of c "int j"] by simp
  then have "nat (bitlen c) \<le> j" by simp
  then have "(2 :: int) ^ nat (bitlen c) \<le> 2 ^ j" by (intro power_increasing) auto
  then show "2 ^ nat (bitlen c) \<le> q" by (simp add: j(1))
qed

lemma not_rounded_to_at_least: "smallest_power_of_two_at_least 1 1 \<and> \<not> smallest_power_of_two_at_least 1 2"
proof -
  have "(1 :: int) = 2 ^ (0 :: nat)" by simp
  then have e: "\<exists>j :: nat. (1 :: int) = 2 ^ j" by blast
  have le: "(1 :: int) \<le> q" if "\<exists>j :: nat. q = 2 ^ j" for q
    using that by auto
  have 1: "smallest_power_of_two_at_least 1 1"
    unfolding smallest_power_of_two_at_least_def using e le by auto
  have 2: "\<not> smallest_power_of_two_at_least 1 2"
  proof
    assume "smallest_power_of_two_at_least 1 2"
    then have "\<forall>q. (\<exists>j :: nat. q = 2 ^ j) \<and> 1 \<le> q \<longrightarrow> (2 :: int) \<le> q"
      by (simp add: smallest_power_of_two_at_least_def)
    with e have "(2 :: int) \<le> 1" by blast
    then show False by simp
  qed
  show ?thesis using 1 2 by simp
qed

subsection \<open>The revision with a dummy slot\<close>

text \<open>For \<open>n\<close> of at least 0, \<open>(n & (n + 1)) == 0\<close> says that \<open>n + 1\<close> is a power of two.\<close>

lemma and_successor:
  fixes n :: int
  shows "n AND (n + 1) = 2 * ((n div 2) AND ((n + 1) div 2))"
  by (subst and_int_rec) simp

lemma power_of_two_from_and:
  fixes n :: int
  assumes "0 \<le> n" "n AND (n + 1) = 0"
  shows "\<exists>k :: nat. n + 1 = 2 ^ k"
  using assms
proof (induction "nat n" arbitrary: n rule: less_induct)
  case less
  show ?case
  proof (cases "n = 0")
    case True
    then have "n + 1 = 2 ^ (0 :: nat)" by simp
    then show ?thesis by blast
  next
    case False
    with less.prems have pos: "0 < n" by simp
    show ?thesis
    proof (cases "even n")
      case True
      then obtain m where m: "n = 2 * m" by (auto elim: evenE)
      have "n AND (n + 1) = 2 * (m AND m)"
        by (subst and_successor) (simp add: m)
      with less.prems pos m show ?thesis by simp
    next
      case False
      then obtain m where m: "n = 2 * m + 1" by (auto elim: oddE)
      with pos have m0: "0 \<le> m" by simp
      have "(n + 1) div 2 = m + 1" "n div 2 = m" using m by simp_all
      then have "n AND (n + 1) = 2 * (m AND (m + 1))"
        by (subst and_successor) simp
      with less.prems have "m AND (m + 1) = 0" by simp
      moreover have "nat m < nat n" using m m0 by simp
      ultimately obtain k :: nat where "m + 1 = 2 ^ k" using less.hyps[of m] m0 by blast
      then have "n + 1 = 2 ^ Suc k" using m by simp
      then show ?thesis by blast
    qed
  qed
qed

lemma and_of_power_of_two:
  fixes n :: int
  assumes "n + 1 = 2 ^ k"
  shows "n AND (n + 1) = 0"
proof -
  have n: "n = mask k" using assms by (simp add: mask_eq_exp_minus_1)
  have "(2 :: int) ^ k AND mask k = take_bit k (2 ^ k)" by (simp only: take_bit_eq_mask)
  also have "\<dots> = 0" by (simp add: take_bit_eq_mod)
  finally show ?thesis unfolding assms by (simp add: n and.commute)
qed


lemma Channel_dummy_eq:
  "Channel_dummy n fresh =
     (if 2 ^ 31 - 1 \<le> n then Inl IntOverflow
      else if n < - 1 then Inl BadArrayLength
      else if n = - 1 \<or> (\<exists>k :: nat. n + 1 = 2 ^ k)
      then Inr \<lparr>n_d = n + 1, size_mask_d = n, buf_d = map fresh [0 ..< nat (n + 1)],
                r_d = 0, w_d = 0\<rparr>
      else Inl AssertionFailed)"
proof -
  have "n AND (n + 1) = 0 \<longleftrightarrow> n = - 1 \<or> (\<exists>k :: nat. n + 1 = 2 ^ k)" if "- 1 \<le> n"
  proof (cases "n = - 1")
    case True
    then show ?thesis by simp
  next
    case False
    with that have "0 \<le> n" by simp
    show ?thesis
    proof
      assume "n AND (n + 1) = 0"
      with \<open>0 \<le> n\<close> show "n = - 1 \<or> (\<exists>k :: nat. n + 1 = 2 ^ k)"
        by (simp add: power_of_two_from_and)
    next
      assume "n = - 1 \<or> (\<exists>k :: nat. n + 1 = 2 ^ k)"
      with False obtain k :: nat where "n + 1 = 2 ^ k" by blast
      then show "n AND (n + 1) = 0" by (rule and_of_power_of_two)
    qed
  qed
  then show ?thesis by (auto simp: Channel_dummy_def)
qed

lemma assertion_fails_iff: "Channel c fresh = Inl AssertionFailed \<longleftrightarrow> c < 0"
  by (simp add: Channel_eq)

lemma dummy_assertion_fails_iff:
  "Channel_dummy n fresh = Inl AssertionFailed \<longleftrightarrow>
     - 1 < n \<and> n < 2 ^ 31 - 1 \<and> \<not> (\<exists>k :: nat. n + 1 = 2 ^ k)"
  by (auto simp: Channel_dummy_eq)

lemma well_formed_dummy_Channel:
  assumes "Channel_dummy n fresh = Inr ch" and "0 \<le> n"
  shows "well_formed_dummy ch" and "n_d ch = n + 1"
proof -
  from assms obtain k :: nat where k: "n + 1 = 2 ^ k" and n: "n < 2 ^ 31 - 1"
    and ch: "ch = \<lparr>n_d = n + 1, size_mask_d = n, buf_d = map fresh [0 ..< nat (n + 1)],
                r_d = 0, w_d = 0\<rparr>"
    by (auto simp: Channel_dummy_eq split: if_splits)
  have "(2 :: int) ^ k < 2 ^ 31" using k n by simp
  then have "k < 31" by (rule power_less_imp_less_exp[rotated]) simp
  then have "k \<le> 30" by simp
  then show "well_formed_dummy ch" using k assms(2)
    unfolding well_formed_dummy_def by (auto simp: ch)
  show "n_d ch = n + 1" by (simp add: ch)
qed

lemma well_formed_dummyD:
  assumes "well_formed_dummy ch"
  shows "0 < n_d ch" and "n_d ch \<le> 2 ^ 30"
    and "int (length (buf_d ch)) = n_d ch"
    and "0 \<le> r_d ch" and "r_d ch < n_d ch"
    and "0 \<le> w_d ch" and "w_d ch < n_d ch"
    and "x AND size_mask_d ch = x mod n_d ch"
proof -
  from assms obtain k where k: "k \<le> 30" "n_d ch = 2 ^ k" and m: "size_mask_d ch = n_d ch - 1"
    by (auto simp: well_formed_dummy_def)
  show "0 < n_d ch" by (simp add: k)
  have "(2 :: int) ^ k \<le> 2 ^ 30" using k(1) by (intro power_increasing) auto
  then show "n_d ch \<le> 2 ^ 30" by (simp add: k)
  show "int (length (buf_d ch)) = n_d ch" "0 \<le> r_d ch" "r_d ch < n_d ch"
    "0 \<le> w_d ch" "w_d ch < n_d ch"
    using assms by (auto simp: well_formed_dummy_def)
  show "x AND size_mask_d ch = x mod n_d ch"
    by (simp add: m k and_mask_mod)
qed

lemma make_call_dummy_well_formed:
  assumes wf: "well_formed_dummy ch"
  shows "\<exists>out ch'. make_call Send_dummy Receive_dummy ch c = Inr (out, ch') \<and>
           well_formed_dummy ch' \<and> n_d ch' = n_d ch"
proof -
  note D = well_formed_dummyD(1-7)[OF wf]
  have w: "0 \<le> (w_d ch + 1) mod n_d ch" "(w_d ch + 1) mod n_d ch < n_d ch"
    and r: "0 \<le> (r_d ch + 1) mod n_d ch" "(r_d ch + 1) mod n_d ch < n_d ch"
    using D(1) by simp_all
  show ?thesis
  proof (cases c)
    case (CallSend x)
    show ?thesis using wf D w unfolding well_formed_dummy_def
      by (auto simp: CallSend Send_dummy_def Let_def cas_loop_first_try
          well_formed_dummyD(8)[OF wf])
  next
    case (CallReceive d)
    show ?thesis using wf D r unfolding well_formed_dummy_def
      by (auto simp: CallReceive Receive_dummy_def Let_def cas_loop_first_try
          well_formed_dummyD(8)[OF wf])
  qed
qed

lemma run_dummy_well_formed:
  assumes "well_formed_dummy ch"
  shows "\<exists>outs ch'. run_dummy ch cs = Inr (outs, ch') \<and> well_formed_dummy ch' \<and>
           n_d ch' = n_d ch"
  using assms
proof (induction cs arbitrary: ch)
  case Nil
  then show ?case by (simp add: run_dummy_def)
next
  case (Cons c cs)
  from make_call_dummy_well_formed[OF Cons.prems, of c] obtain out ch1 where
    1: "make_call Send_dummy Receive_dummy ch c = Inr (out, ch1)" "well_formed_dummy ch1"
       "n_d ch1 = n_d ch"
    by blast
  from Cons.IH[OF 1(2)] obtain outs ch2 where
    2: "run_dummy ch1 cs = Inr (outs, ch2)" "well_formed_dummy ch2" "n_d ch2 = n_d ch1"
    by blast
  with 1 show ?case by (simp add: run_dummy_def)
qed

lemma make_calls_keeps:
  assumes s: "\<And>s x b s'. send s x = Inr (b, s') \<Longrightarrow> f s' = f s"
    and r: "\<And>s d b v s'. recv s d = Inr (b, v, s') \<Longrightarrow> f s' = f s"
    and m: "make_calls send recv s cs = Inr (outs, s')"
  shows "f s' = f s"
  using m
proof (induction cs arbitrary: s outs)
  case Nil
  then show ?case by simp
next
  case (Cons c cs)
  from Cons.prems obtain out s1 outs1 where
    1: "make_call send recv s c = Inr (out, s1)" and 2: "make_calls send recv s1 cs = Inr (outs1, s')"
    by (auto split: sum.splits)
  from 1 have "f s1 = f s"
    by (cases c) (auto split: sum.splits dest: s r)
  with Cons.IH[OF 2] show ?case by simp
qed

lemma run_dummy_keeps_n:
  assumes "run_dummy ch cs = Inr (outs, ch')"
  shows "n_d ch' = n_d ch"
proof (rule make_calls_keeps[where f = n_d, OF _ _ assms[unfolded run_dummy_def]])
  show "n_d s' = n_d s" if "Send_dummy s x = Inr (b, s')" for s :: "'a channel_dummy" and x b s'
    using that by (auto simp: Send_dummy_def Let_def split: if_splits option.splits)
  show "n_d s' = n_d s" if "Receive_dummy s d = Inr (b, v, s')"
    for s :: "'a channel_dummy" and d b v s'
    using that by (auto simp: Receive_dummy_def Let_def split: if_splits option.splits)
qed

section \<open>First in, first out\<close>

text \<open>
  C1, as amended. On a constructed channel every finite sequence of Send and Receive
  calls runs to its end, and the values passed to the Sends that returned true are the
  values delivered by the Receives that returned true, in the same order, followed by
  the values still queued: the delivered sequence is the beginning of the accepted
  sequence of the same length (each Receive that returns true delivers the next item
  in the order of the Sends), and the two sequences are equal when the channel is
  empty at the end.
\<close>

theorem fifo_order:
  assumes "Channel c fresh = Inr ch0"
  shows "\<exists>outs ch. run ch0 cs = Inr (outs, ch) \<and> length outs = length cs \<and>
           accepted cs outs = delivered outs @ queued ch \<and>
           delivered outs = take (length (delivered outs)) (accepted cs outs) \<and>
           (delivered outs = accepted cs outs \<longleftrightarrow> occupancy ch = 0)"
proof -
  note wf0 = well_formed_Channel[OF assms]
  have q0: "queued ch0 = []" using wf0(3) by (simp add: queued_def)
  from run_well_formed[OF wf0(1), of cs] obtain outs ch where
    r: "run ch0 cs = Inr (outs, ch)" "length outs = length cs" "well_formed ch"
       "queued ch0 @ accepted cs outs = delivered outs @ queued ch"
    by blast
  have a: "accepted cs outs = delivered outs @ queued ch" using r(4) q0 by simp
  have "delivered outs = accepted cs outs \<longleftrightarrow> queued ch = []" using a by auto
  also have "\<dots> \<longleftrightarrow> occupancy ch = 0" using length_queued[OF r(3)] by auto
  finally have e: "delivered outs = accepted cs outs \<longleftrightarrow> occupancy ch = 0" .
  show ?thesis using r(1,2) a e by simp
qed

theorem fifo_order_witness:
  "Channel 1 (\<lambda>_. 0 :: int) =
     Inr \<lparr>cap_m = 1, size_m = 2, size_mask_m = 1, buf_m = [0, 0 :: int], r_m = 0, w_m = 0\<rparr> \<and>
   (\<exists>outs ch.
      run \<lparr>cap_m = 1, size_m = 2, size_mask_m = 1, buf_m = [0, 0 :: int], r_m = 0, w_m = 0\<rparr>
        [CallSend 7, CallSend 8, CallReceive 0, CallSend 9] = Inr (outs, ch) \<and>
      accepted [CallSend 7, CallSend 8, CallReceive 0, CallSend 9] outs =
        delivered outs @ queued ch)"
proof -
  have h: "Channel 1 (\<lambda>_. 0 :: int) =
     Inr \<lparr>cap_m = 1, size_m = 2, size_mask_m = 1, buf_m = [0, 0 :: int], r_m = 0, w_m = 0\<rparr>"
    by (simp add: Channel_eq compute_bitlen upt_rec)
  show ?thesis
    using h fifo_order [OF h, of "[CallSend 7, CallSend 8, CallReceive 0, CallSend 9]"]
    by auto
qed

text \<open>
  The claim as it was stated asks for equal sequences after every finite sequence of
  calls. After a single accepted Send on a channel of capacity 1 the accepted sequence
  holds the value and the delivered sequence is empty.
\<close>

theorem fifo_equality_counterexample:
  "Channel 1 (\<lambda>_. 0 :: int) =
     Inr \<lparr>cap_m = 1, size_m = 2, size_mask_m = 1, buf_m = [0, 0 :: int], r_m = 0, w_m = 0\<rparr> \<and>
   run \<lparr>cap_m = 1, size_m = 2, size_mask_m = 1, buf_m = [0, 0 :: int], r_m = 0, w_m = 0\<rparr>
     [CallSend 7] =
     Inr ([Sent True],
          \<lparr>cap_m = 1, size_m = 2, size_mask_m = 1, buf_m = [7, 0 :: int], r_m = 0, w_m = 1\<rparr>) \<and>
   accepted [CallSend (7 :: int)] [Sent True] = [7] \<and>
   delivered [Sent True :: int outcome] = [] \<and>
   delivered [Sent True :: int outcome] \<noteq> accepted [CallSend 7] [Sent True]"
  by (simp add: Channel_eq compute_bitlen upt_rec run_def Send_def in_bounds_def)

section \<open>Full and empty\<close>

text \<open>
  C2. In every state that Send and Receive calls reach from a channel constructed
  with capacity \<open>c\<close>, Send returns true exactly when the occupancy is below \<open>c\<close> and
  Receive returns true exactly when the occupancy is above 0, where the occupancy
  \<open>(writeIndex - readIndex) mod storageLength\<close> is the number of items accepted and
  not yet delivered.
\<close>

theorem send_iff_room_receive_iff_item:
  assumes "Channel c fresh = Inr ch0"
  shows "\<exists>outs ch. run ch0 cs = Inr (outs, ch) \<and>
           occupancy ch = int (length (accepted cs outs)) - int (length (delivered outs)) \<and>
           occupancy ch = int (length (queued ch)) \<and>
           (\<exists>ch'. Send ch x = Inr (occupancy ch < c, ch')) \<and>
           (\<exists>v ch'. Receive ch d = Inr (0 < occupancy ch, v, ch'))"
proof -
  note wf0 = well_formed_Channel[OF assms]
  have q0: "queued ch0 = []" using wf0(3) by (simp add: queued_def)
  from run_well_formed[OF wf0(1), of cs] obtain outs ch where
    r: "run ch0 cs = Inr (outs, ch)" "well_formed ch" "cap_m ch = cap_m ch0"
       "queued ch0 @ accepted cs outs = delivered outs @ queued ch"
    by blast
  have "length (accepted cs outs) = length (delivered outs) + length (queued ch)"
    using r(4) q0 by (metis append_Nil length_append)
  then have o: "occupancy ch = int (length (accepted cs outs)) - int (length (delivered outs))"
    "occupancy ch = int (length (queued ch))"
    using length_queued[OF r(2)] by simp_all
  have s: "\<exists>ch'. Send ch x = Inr (occupancy ch < c, ch')"
    using r(3) wf0(2) by (simp add: Send_eq[OF r(2)])
  have v: "\<exists>v ch'. Receive ch d = Inr (0 < occupancy ch, v, ch')"
    by (simp add: Receive_eq[OF r(2)])
  show ?thesis using r(1) o s v by blast
qed

theorem send_iff_room_receive_iff_item_witness:
  "Channel 1 (\<lambda>_. 0 :: int) =
     Inr \<lparr>cap_m = 1, size_m = 2, size_mask_m = 1, buf_m = [0, 0 :: int], r_m = 0, w_m = 0\<rparr> \<and>
   (\<exists>outs ch.
      run \<lparr>cap_m = 1, size_m = 2, size_mask_m = 1, buf_m = [0, 0 :: int], r_m = 0, w_m = 0\<rparr>
        [CallSend 7] = Inr (outs, ch) \<and>
      (\<exists>ch'. Send ch 8 = Inr (occupancy ch < 1, ch')) \<and>
      (\<exists>v ch'. Receive ch 0 = Inr (0 < occupancy ch, v, ch')))"
proof -
  have h: "Channel 1 (\<lambda>_. 0 :: int) =
     Inr \<lparr>cap_m = 1, size_m = 2, size_mask_m = 1, buf_m = [0, 0 :: int], r_m = 0, w_m = 0\<rparr>"
    by (simp add: Channel_eq compute_bitlen upt_rec)
  show ?thesis
    using h send_iff_room_receive_iff_item [OF h, of "[CallSend 7]" 8 0]
    by auto
qed

section \<open>The boundary scenario of capacity 3\<close>

text \<open>
  C4. On a freshly constructed channel of capacity 3 the calls Send(1), Send(2),
  Send(3), Send(4), Receive, Send(4), Receive, Receive, Receive, Receive return true,
  true, true, false, (true, 1), true, (true, 2), (true, 3), (true, 4), false, whatever
  the storage and the receiving variable held before; the last Receive leaves the
  receiving variable as it was.
\<close>

theorem boundary_scenario_capacity_3:
  "\<exists>ch0 ch.
     Channel 3 fresh = Inr ch0 \<and>
     run ch0
       [CallSend 1, CallSend 2, CallSend 3, CallSend 4, CallReceive d, CallSend 4,
        CallReceive d, CallReceive d, CallReceive d, CallReceive d] =
     Inr ([Sent True, Sent True, Sent True, Sent False, Received True (1 :: int), Sent True,
           Received True 2, Received True 3, Received True 4, Received False d], ch)"
  by (simp add: Channel_eq compute_bitlen upt_rec run_def Send_def Receive_def in_bounds_def)

section \<open>A refused call leaves everything as it was\<close>

text \<open>
  C5. When \<open>Send\<close> returns false the channel after the call is the channel before it
  (both indices, every slot, capacity, size and mask); when \<open>Receive\<close> returns false
  the channel is unchanged as well and \<open>*item\<close> keeps its content.
\<close>

theorem false_return_changes_nothing:
  "(Send chs x = Inr (False, chs') \<longrightarrow> chs' = chs) \<and>
   (Receive chr out = Inr (False, out', chr') \<longrightarrow> chr' = chr \<and> out' = out)"
  by (auto simp: Send_def Receive_def Let_def split: if_splits)

theorem false_return_changes_nothing_witness:
  "Send \<lparr>cap_m = 1, size_m = 2, size_mask_m = 1, buf_m = [7, 0 :: int], r_m = 0, w_m = 1\<rparr> (9 :: int) =
     Inr (False, \<lparr>cap_m = 1, size_m = 2, size_mask_m = 1, buf_m = [7, 0 :: int], r_m = 0, w_m = 1\<rparr>) \<and>
   Receive \<lparr>cap_m = 1, size_m = 2, size_mask_m = 1, buf_m = [7, 0 :: int], r_m = 1, w_m = 1\<rparr> (5 :: int) =
     Inr (False, 5, \<lparr>cap_m = 1, size_m = 2, size_mask_m = 1, buf_m = [7, 0 :: int], r_m = 1, w_m = 1\<rparr>)"
  using false_return_changes_nothing
    [of "\<lparr>cap_m = 1, size_m = 2, size_mask_m = 1, buf_m = [7, 0 :: int], r_m = 0, w_m = 1\<rparr>" "9 :: int"
        "\<lparr>cap_m = 1, size_m = 2, size_mask_m = 1, buf_m = [7, 0 :: int], r_m = 0, w_m = 1\<rparr>"
        "\<lparr>cap_m = 1, size_m = 2, size_mask_m = 1, buf_m = [7, 0 :: int], r_m = 1, w_m = 1\<rparr>" "5 :: int" 5
        "\<lparr>cap_m = 1, size_m = 2, size_mask_m = 1, buf_m = [7, 0 :: int], r_m = 1, w_m = 1\<rparr>"]
  by (simp add: Send_def Receive_def)

section \<open>The indices stay inside the storage\<close>

text \<open>
  C8. From construction on and after every Send and Receive call, both indices are at
  least 0 and below the storage length: \<open>0 \<le> readIndex < storageLength\<close> and
  \<open>0 \<le> writeIndex < storageLength\<close>, where the storage length \<open>size_\<close> is the number
  of slots allocated.
\<close>

theorem indices_within_storage:
  assumes "Channel c fresh = Inr ch0"
  shows "\<exists>outs ch. run ch0 cs = Inr (outs, ch) \<and>
           int (length (buf_m ch)) = size_m ch \<and>
           0 \<le> r_m ch \<and> r_m ch < size_m ch \<and>
           0 \<le> w_m ch \<and> w_m ch < size_m ch"
proof -
  from run_well_formed[OF well_formed_Channel(1)[OF assms], of cs] obtain outs ch where
    r: "run ch0 cs = Inr (outs, ch)" "well_formed ch"
    by blast
  show ?thesis using r(1) well_formedD(1-12)[OF r(2)] by simp
qed

theorem indices_within_storage_witness:
  "Channel 3 (\<lambda>_. 0 :: int) =
     Inr \<lparr>cap_m = 3, size_m = 4, size_mask_m = 3, buf_m = [0, 0, 0, 0 :: int], r_m = 0, w_m = 0\<rparr> \<and>
   (\<exists>outs ch.
      run \<lparr>cap_m = 3, size_m = 4, size_mask_m = 3, buf_m = [0, 0, 0, 0 :: int], r_m = 0, w_m = 0\<rparr>
        [CallSend 1, CallReceive 0, CallSend 2] = Inr (outs, ch) \<and>
      0 \<le> r_m ch \<and> r_m ch < size_m ch \<and> 0 \<le> w_m ch \<and> w_m ch < size_m ch)"
proof -
  have h: "Channel 3 (\<lambda>_. 0 :: int) =
     Inr \<lparr>cap_m = 3, size_m = 4, size_mask_m = 3, buf_m = [0, 0, 0, 0 :: int], r_m = 0, w_m = 0\<rparr>"
    by (simp add: Channel_eq compute_bitlen upt_rec)
  show ?thesis
    using h indices_within_storage [OF h, of "[CallSend 1, CallReceive 0, CallSend 2]"]
    by auto
qed

section \<open>Construction\<close>

text \<open>
  C3, as amended. For every requested capacity \<open>c\<close> with \<open>1 \<le> c < 2 ^ 30\<close>, the
  constructor of the revisions that round allocates backing storage of \<open>size_\<close> slots,
  and that length is the smallest power of two strictly greater than \<open>c\<close>.
\<close>

theorem storage_is_smallest_power_of_two_above:
  assumes "1 \<le> c" and "c < 2 ^ 30"
  shows "\<exists>ch. Channel c fresh = Inr ch \<and> int (length (buf_m ch)) = size_m ch \<and>
           smallest_power_of_two_above c (int (length (buf_m ch)))"
  using assms power_of_two_above[of c] by (simp add: Channel_eq)

theorem storage_is_smallest_power_of_two_above_witness:
  "(1 :: int) \<le> 3 \<and> (3 :: int) < 2 ^ 30 \<and>
   Channel 3 (\<lambda>_. 0 :: int) =
     Inr \<lparr>cap_m = 3, size_m = 4, size_mask_m = 3, buf_m = [0, 0, 0, 0], r_m = 0, w_m = 0\<rparr> \<and>
   smallest_power_of_two_above 3 4"
  using storage_is_smallest_power_of_two_above [of 3 "\<lambda>_. 0 :: int"]
  by (simp add: Channel_eq compute_bitlen upt_rec)

text \<open>
  The storage of a channel of capacity 1 has 2 slots, and the smallest power of two at
  least as large as 1 is 1.
\<close>

theorem storage_of_capacity_1_counterexample:
  "Channel 1 (\<lambda>_. 0 :: int) =
     Inr \<lparr>cap_m = 1, size_m = 2, size_mask_m = 1, buf_m = [0, 0], r_m = 0, w_m = 0\<rparr> \<and>
   int (length (buf_m \<lparr>cap_m = 1, size_m = 2, size_mask_m = 1, buf_m = [0, 0 :: int],
                       r_m = 0, w_m = 0\<rparr>)) = 2 \<and>
   smallest_power_of_two_at_least 1 1 \<and>
   \<not> smallest_power_of_two_at_least 1 2"
  using not_rounded_to_at_least by (simp add: Channel_eq compute_bitlen upt_rec)

text \<open>
  C6. Construction is to stop, by its assertion, exactly the capacities that the
  sizing rule cannot serve, and to size every other one consistently. At two inputs
  the constructors do otherwise. In the revisions that round, \<open>assert(capacity >= 0)\<close>
  lets 0 through, and the power computed from \<open>log(0)\<close> has no defined value, so that
  neither \<open>size_\<close> nor \<open>size_mask_\<close> has one. In the revision with a dummy slot,
  \<open>assert((n & (n + 1)) == 0)\<close> lets \<open>- 1\<close> through: the channel has no slot at
  all, \<open>capacity()\<close> is \<open>- 1\<close>, and the first Send writes outside the storage.
\<close>

theorem construction_accepts_unusable_capacities:
  "Channel 0 fresh = Inl UndefinedConversion \<and>
   Channel 0 fresh \<noteq> Inl AssertionFailed \<and>
   Channel_dummy (- 1) fresh =
     Inr \<lparr>n_d = 0, size_mask_d = - 1, buf_d = [], r_d = 0, w_d = 0\<rparr> \<and>
   capacity_dummy \<lparr>n_d = 0, size_mask_d = - 1, buf_d = [], r_d = 0, w_d = 0\<rparr> = - 1 \<and>
   Send_dummy \<lparr>n_d = 0, size_mask_d = - 1, buf_d = [], r_d = 0, w_d = 0\<rparr> x = Inl OutOfBounds"
  by (simp add: Channel_def Channel_dummy_def capacity_dummy_def Send_dummy_def)

section \<open>The capacity reported\<close>

text \<open>
  C7. After construction with the requested capacity and after any sequence of Send
  and Receive calls, \<open>capacity()\<close> returns the requested capacity, whatever the length
  of the storage: in the two revisions that round the storage up to a power of two,
  and in the revision whose capacity is a power of two minus one (there for every
  sequence of calls that has a defined result, which is each of them when the
  capacity is at least 0).
\<close>

theorem capacity_is_constructor_argument:
  "(Channel c fresh = Inr ch0 \<longrightarrow>
      (\<exists>outs ch. run ch0 cs = Inr (outs, ch) \<and> capacity ch = c) \<and>
      (\<exists>outs ch. run_volatile ch0 cs = Inr (outs, ch) \<and> capacity ch = c)) \<and>
   (Channel_dummy n fresh = Inr dh0 \<longrightarrow>
      (\<forall>outs dh. run_dummy dh0 cs = Inr (outs, dh) \<longrightarrow> capacity_dummy dh = n) \<and>
      (0 \<le> n \<longrightarrow> (\<exists>outs dh. run_dummy dh0 cs = Inr (outs, dh))))"
proof (intro conjI impI allI)
  assume c: "Channel c fresh = Inr ch0"
  note wf0 = well_formed_Channel[OF c]
  from run_well_formed[OF wf0(1), of cs] obtain outs ch where
    r: "run ch0 cs = Inr (outs, ch)" "cap_m ch = cap_m ch0"
    by blast
  then show "\<exists>outs ch. run ch0 cs = Inr (outs, ch) \<and> capacity ch = c"
    using wf0(2) by (simp add: capacity_def)
  then show "\<exists>outs ch. run_volatile ch0 cs = Inr (outs, ch) \<and> capacity ch = c"
    by (simp add: run_volatile_eq_run[OF wf0(1)])
next
  fix outs dh
  assume d: "Channel_dummy n fresh = Inr dh0" and r: "run_dummy dh0 cs = Inr (outs, dh)"
  from d have "n_d dh0 = n + 1" by (auto simp: Channel_dummy_def split: if_splits)
  with run_dummy_keeps_n[OF r] show "capacity_dummy dh = n" by (simp add: capacity_dummy_def)
next
  assume d: "Channel_dummy n fresh = Inr dh0" and n: "0 \<le> n"
  from run_dummy_well_formed[OF well_formed_dummy_Channel(1)[OF d n], of cs]
  show "\<exists>outs dh. run_dummy dh0 cs = Inr (outs, dh)" by blast
qed

theorem capacity_is_constructor_argument_witness:
  "Channel 3 (\<lambda>_. 0 :: int) =
     Inr \<lparr>cap_m = 3, size_m = 4, size_mask_m = 3, buf_m = [0, 0, 0, 0], r_m = 0, w_m = 0\<rparr> \<and>
   run \<lparr>cap_m = 3, size_m = 4, size_mask_m = 3, buf_m = [0, 0, 0, 0 :: int], r_m = 0, w_m = 0\<rparr>
     [CallSend 5, CallReceive 0] =
     Inr ([Sent True, Received True 5],
          \<lparr>cap_m = 3, size_m = 4, size_mask_m = 3, buf_m = [5, 0, 0, 0], r_m = 1, w_m = 1\<rparr>) \<and>
   capacity \<lparr>cap_m = 3, size_m = 4, size_mask_m = 3, buf_m = [5, 0, 0, 0 :: int],
              r_m = 1, w_m = 1\<rparr> = 3 \<and>
   Channel_dummy 3 (\<lambda>_. 0 :: int) =
     Inr \<lparr>n_d = 4, size_mask_d = 3, buf_d = [0, 0, 0, 0], r_d = 0, w_d = 0\<rparr> \<and>
   (0 :: int) \<le> 3 \<and>
   run_dummy \<lparr>n_d = 4, size_mask_d = 3, buf_d = [0, 0, 0, 0 :: int], r_d = 0, w_d = 0\<rparr>
     [CallSend 5, CallReceive 0] =
     Inr ([Sent True, Received True 5],
          \<lparr>n_d = 4, size_mask_d = 3, buf_d = [5, 0, 0, 0], r_d = 1, w_d = 1\<rparr>) \<and>
   capacity_dummy \<lparr>n_d = 4, size_mask_d = 3, buf_d = [5, 0, 0, 0 :: int], r_d = 1, w_d = 1\<rparr> = 3"
  using capacity_is_constructor_argument
    [of 3 "\<lambda>_. 0 :: int"
        "\<lparr>cap_m = 3, size_m = 4, size_mask_m = 3, buf_m = [0, 0, 0, 0], r_m = 0, w_m = 0\<rparr>"
        "[CallSend 5, CallReceive 0]" 3
        "\<lparr>n_d = 4, size_mask_d = 3, buf_d = [0, 0, 0, 0], r_d = 0, w_d = 0\<rparr>"]
  by (simp add: Channel_eq compute_bitlen upt_rec Channel_dummy_def run_def run_dummy_def
      Send_def Receive_def Send_dummy_def Receive_dummy_def in_bounds_def cas_loop_first_try
      capacity_def capacity_dummy_def)

section \<open>The two revisions that round agree\<close>

text \<open>
  C10. From the same constructed channel and on the same sequence of calls taken one
  after the other, the revision with volatile indices and \<open>__sync\<close> builtins and the
  revision with atomics return the same booleans, deliver the same items and leave the
  same channel (read index, write index and storage); in the state reached, a further
  Send or Receive of the one is that of the other.
\<close>

theorem volatile_and_atomic_agree:
  assumes "Channel c fresh = Inr ch0"
  shows "\<exists>outs ch. run ch0 cs = Inr (outs, ch) \<and> run_volatile ch0 cs = Inr (outs, ch) \<and>
           Send_volatile ch x = Send ch x \<and> Receive_volatile ch d = Receive ch d"
proof -
  note wf0 = well_formed_Channel(1)[OF assms]
  from run_well_formed[OF wf0, of cs] obtain outs ch where
    r: "run ch0 cs = Inr (outs, ch)" "well_formed ch"
    by blast
  have "Send_volatile ch x = Send ch x"
    using well_formedD(5,6)[OF r(2)] by (simp add: Send_volatile_eq_Send)
  then show ?thesis
    using r(1) run_volatile_eq_run[OF wf0, of cs] by (simp add: Receive_volatile_eq_Receive)
qed

theorem volatile_and_atomic_agree_witness:
  "Channel 1 (\<lambda>_. 0 :: int) =
     Inr \<lparr>cap_m = 1, size_m = 2, size_mask_m = 1, buf_m = [0, 0], r_m = 0, w_m = 0\<rparr> \<and>
   run_volatile \<lparr>cap_m = 1, size_m = 2, size_mask_m = 1, buf_m = [0, 0 :: int], r_m = 0, w_m = 0\<rparr>
     [CallSend 7, CallSend 8, CallReceive 0, CallReceive 0] =
   run \<lparr>cap_m = 1, size_m = 2, size_mask_m = 1, buf_m = [0, 0 :: int], r_m = 0, w_m = 0\<rparr>
     [CallSend 7, CallSend 8, CallReceive 0, CallReceive 0]"
proof -
  have h: "Channel 1 (\<lambda>_. 0 :: int) =
     Inr \<lparr>cap_m = 1, size_m = 2, size_mask_m = 1, buf_m = [0, 0], r_m = 0, w_m = 0\<rparr>"
    by (simp add: Channel_eq compute_bitlen upt_rec)
  show ?thesis
    using h volatile_and_atomic_agree
      [OF h, of "[CallSend 7, CallSend 8, CallReceive 0, CallReceive 0]" 9 0]
    by auto
qed

end
